theory Spec2Isabelle
  imports Main "HOL-Library.Signed_Division"
begin

section \<open>The node graph of \<^verbatim>\<open>Source.cpp\<close>\<close>

text \<open>
  \<^verbatim>\<open>struct Node { int data; Node* left; Node* right; }\<close>. Every node is owned by exactly one
  parent pointer (or by \<^verbatim>\<open>BST::root\<close>), so a \<^verbatim>\<open>Node*\<close> is modelled by the subtree it points to
  and \<^verbatim>\<open>nullptr\<close> by \<open>Null\<close>. The fields of \<open>Node\<close> are in the order of the struct:
  data, left, right.

  The payload is a C++ \<^verbatim>\<open>int\<close>. The tree code only compares payloads (\<^verbatim>\<open><\<close>, \<^verbatim>\<open>>\<close>) and
  copies them; it never computes with them, so no operation can overflow and the payload is
  modelled by \<open>int\<close> with its usual order, which agrees with the signed machine order on
  every representable value.
\<close>

datatype tree = Null | Node int tree tree

text \<open>In-order traversal (left subtree, node, right subtree), as the glossary of the
  specification defines it. The source has no such routine; it is the observation the
  properties are stated with.\<close>

fun inorder :: "tree \<Rightarrow> int list" where
  "inorder Null = []"
| "inorder (Node d l r) = inorder l @ d # inorder r"

fun size_tree :: "tree \<Rightarrow> nat" where
  "size_tree Null = 0"
| "size_tree (Node d l r) = size_tree l + 1 + size_tree r"

text \<open>The ordering invariant, node by node: everything on the left is strictly smaller,
  everything on the right strictly greater.\<close>

fun bst_ordered :: "tree \<Rightarrow> bool" where
  "bst_ordered Null = True"
| "bst_ordered (Node d l r) =
     ((\<forall>x \<in> set (inorder l). x < d) \<and> (\<forall>x \<in> set (inorder r). d < x)
      \<and> bst_ordered l \<and> bst_ordered r)"

section \<open>Diagnostic output\<close>

text \<open>What the program writes to \<^verbatim>\<open>std::cout\<close>, one constructor per line of text that
  \<^verbatim>\<open>insert\<close> and \<^verbatim>\<open>testPerformanceHelper\<close> print. The elapsed wall-clock time printed by
  the benchmark is not part of the model.\<close>

datatype msg =
    Insert_here int
  | Go_left_from int
  | Go_right_from int
  | Added_elements int

section \<open>The private recursive methods\<close>

text \<open>\<^verbatim>\<open>Node* insert(Node* node, int data)\<close>. The flag \<^verbatim>\<open>verbose\<close> is read from the object;
  here it is the first argument. The result is the returned subtree together with the
  lines printed, in the order they are printed.\<close>

fun insert_bst :: "bool \<Rightarrow> tree \<Rightarrow> int \<Rightarrow> tree \<times> msg list" where
  "insert_bst vb Null x = (Node x Null Null, if vb then [Insert_here x] else [])"
| "insert_bst vb (Node d l r) x =
     (if x < d then
        (case insert_bst vb l x of
           (l', out) \<Rightarrow> (Node d l' r, (if vb then [Go_left_from d] else []) @ out))
      else if x > d then
        (case insert_bst vb r x of
           (r', out) \<Rightarrow> (Node d l r', (if vb then [Go_right_from d] else []) @ out))
      else (Node d l r, []))"

text \<open>\<^verbatim>\<open>Node* findMin(Node* node)\<close>:
  \<^verbatim>\<open>while (node && node->left) node = node->left; return node;\<close>\<close>

fun findMin :: "tree \<Rightarrow> tree" where
  "findMin Null = Null"
| "findMin (Node d Null r) = Node d Null r"
| "findMin (Node d (Node d' l' r') r) = findMin (Node d' l' r')"

text \<open>\<^verbatim>\<open>Node* remove(Node* node, int data)\<close>. In the two-child branch the source reads
  \<^verbatim>\<open>temp->data\<close> where \<^verbatim>\<open>temp = findMin(node->right)\<close>; reading through a null \<^verbatim>\<open>temp\<close>
  would be a null dereference, which the model makes the result \<open>None\<close>.\<close>

fun remove_bst :: "tree \<Rightarrow> int \<Rightarrow> tree option" where
  "remove_bst Null x = Some Null"
| "remove_bst (Node d l r) x =
     (if x < d then
        (case remove_bst l x of None \<Rightarrow> None | Some l' \<Rightarrow> Some (Node d l' r))
      else if x > d then
        (case remove_bst r x of None \<Rightarrow> None | Some r' \<Rightarrow> Some (Node d l r'))
      else if l = Null then Some r
      else if r = Null then Some l
      else
        (case findMin r of
           Null \<Rightarrow> None
         | Node m ml mr \<Rightarrow>
             (case remove_bst r m of None \<Rightarrow> None | Some r' \<Rightarrow> Some (Node m l r'))))"

text \<open>\<^verbatim>\<open>int findMax(Node* node)\<close>: \<open>-1\<close> for the empty tree, otherwise the payload of the
  last node on the chain of right pointers.\<close>

fun findMax :: "tree \<Rightarrow> int" where
  "findMax Null = - 1"
| "findMax (Node d l Null) = d"
| "findMax (Node d l (Node d' l' r')) = findMax (Node d' l' r')"

section \<open>The object and its public methods\<close>

text \<open>The two members of \<^verbatim>\<open>class BST\<close>, together with the two pieces of process state the
  methods touch: the text written to \<^verbatim>\<open>std::cout\<close> so far, and how many times \<^verbatim>\<open>rand()\<close>
  has been called.\<close>

record state =
  verbose :: bool
  root :: tree
  cout :: "msg list"
  rand_calls :: nat

text \<open>The constructor \<^verbatim>\<open>BST() : root(nullptr), verbose(true)\<close> at program start.\<close>

definition BST_init :: state where
  "BST_init = \<lparr>verbose = True, root = Null, cout = [], rand_calls = 0\<rparr>"

text \<open>\<^verbatim>\<open>void add(int data) { root = insert(root, data); }\<close>\<close>

definition add :: "int \<Rightarrow> state \<Rightarrow> state" where
  "add x s =
     (case insert_bst (verbose s) (root s) x of
        (t, out) \<Rightarrow> s\<lparr>root := t, cout := cout s @ out\<rparr>)"

text \<open>\<^verbatim>\<open>void remove(int data) { root = remove(root, data); }\<close>\<close>

definition remove_value :: "int \<Rightarrow> state \<Rightarrow> state option" where
  "remove_value x s =
     (case remove_bst (root s) x of None \<Rightarrow> None | Some t \<Rightarrow> Some (s\<lparr>root := t\<rparr>))"

text \<open>\<^verbatim>\<open>int findMaximum() { return findMax(root); }\<close>\<close>

definition findMaximum :: "state \<Rightarrow> int" where
  "findMaximum s = findMax (root s)"

text \<open>\<^verbatim>\<open>testPerformanceHelper(numElements)\<close>: the loop
  \<^verbatim>\<open>for (int i = 0; i < numElements; i++) add(rand() % (numElements * 10));\<close>
  followed by one line of output. The parameter \<open>rnd\<close> is the random generator: \<open>rnd k\<close>
  is what the \<open>k\<close>-th call of \<^verbatim>\<open>rand()\<close> returns. \<^verbatim>\<open>%\<close> is the truncating remainder.
  The only callers pass 100, 1000, 10000 and 100000, so \<^verbatim>\<open>numElements * 10\<close> and \<^verbatim>\<open>i + 1\<close>
  stay far below \<open>2^31\<close> and the counters are modelled by \<open>int\<close> without wrap-around.\<close>

function add_loop :: "(nat \<Rightarrow> int) \<Rightarrow> int \<Rightarrow> int \<Rightarrow> state \<Rightarrow> state" where
  "add_loop rnd i numElements s =
     (if i < numElements then
        add_loop rnd (i + 1) numElements
          (add (rnd (rand_calls s) smod (numElements * 10))
               (s\<lparr>rand_calls := rand_calls s + 1\<rparr>))
      else s)"
  by pat_completeness auto
termination
  by (relation "measure (\<lambda>(rnd, i, numElements, s). nat (numElements - i))") auto

declare add_loop.simps [simp del]

definition testPerformanceHelper :: "(nat \<Rightarrow> int) \<Rightarrow> int \<Rightarrow> state \<Rightarrow> state" where
  "testPerformanceHelper rnd numElements s =
     (let s' = add_loop rnd 0 numElements s
      in s'\<lparr>cout := cout s' @ [Added_elements numElements]\<rparr>)"

text \<open>\<^verbatim>\<open>void testPerformance()\<close>: the flag is cleared, four stages run on the same tree, the
  flag is set.\<close>

definition testPerformance :: "(nat \<Rightarrow> int) \<Rightarrow> state \<Rightarrow> state" where
  "testPerformance rnd s =
     (let s1 = s\<lparr>verbose := False\<rparr>;
          s2 = testPerformanceHelper rnd 100 s1;
          s3 = testPerformanceHelper rnd 1000 s2;
          s4 = testPerformanceHelper rnd 10000 s3;
          s5 = testPerformanceHelper rnd 100000 s4
      in s5\<lparr>verbose := True\<rparr>)"

text \<open>The two mutating menu choices of \<^verbatim>\<open>main\<close> (1: add, 2: remove) and the effect of a
  sequence of them, one after the other. A null dereference ends the run.\<close>

datatype op = Add int | Remove int

fun step :: "op \<Rightarrow> state \<Rightarrow> state option" where
  "step (Add x) s = Some (add x s)"
| "step (Remove x) s = remove_value x s"

fun run :: "op list \<Rightarrow> state \<Rightarrow> state option" where
  "run [] s = Some s"
| "run (o1 # os) s = (case step o1 s of None \<Rightarrow> None | Some s' \<Rightarrow> run os s')"

text \<open>Two inputs used below: a generator whose every call returns 0, and an empty tree
  whose owner has cleared the public member \<^verbatim>\<open>verbose\<close>.\<close>

definition rand_zero :: "nat \<Rightarrow> int" where
  "rand_zero k = 0"

definition quiet_empty :: state where
  "quiet_empty = \<lparr>verbose = False, root = Null, cout = [], rand_calls = 0\<rparr>"

section \<open>Insertion\<close>

lemma fst_insert_bst_Node:
  "fst (insert_bst vb (Node d l r) x) =
     (if x < d then Node d (fst (insert_bst vb l x)) r
      else if x > d then Node d l (fst (insert_bst vb r x))
      else Node d l r)"
  by (simp add: case_prod_beta)

lemma fst_insert_bst_Null: "fst (insert_bst vb Null x) = Node x Null Null"
  by simp

lemma set_insert_bst: "set (inorder (fst (insert_bst vb t x))) = {x} \<union> set (inorder t)"
proof (induction t)
  case Null
  show ?case by simp
next
  case (Node d l r)
  then show ?case
    by (simp only: fst_insert_bst_Node inorder.simps set_append list.set split: if_split) auto
qed

lemma bst_insert_bst: "bst_ordered t \<Longrightarrow> bst_ordered (fst (insert_bst vb t x))"
proof (induction t)
  case Null
  then show ?case by simp
next
  case (Node d l r)
  then show ?case
    by (simp only: fst_insert_bst_Node bst_ordered.simps set_insert_bst split: if_split) auto
qed

lemma insert_bst_verbose: "fst (insert_bst vb t x) = fst (insert_bst vb' t x)"
proof (induction t)
  case Null
  show ?case by simp
next
  case (Node d l r)
  then show ?case by (simp only: fst_insert_bst_Node)
qed

lemma insert_bst_twice:
  "fst (insert_bst vb' (fst (insert_bst vb t x)) x) = fst (insert_bst vb t x)"
proof (induction t)
  case Null
  show ?case by simp
next
  case (Node d l r)
  then show ?case by (simp only: fst_insert_bst_Node split: if_split) simp
qed

lemma insert_bst_present:
  "bst_ordered t \<Longrightarrow> x \<in> set (inorder t) \<Longrightarrow> fst (insert_bst vb t x) = t"
proof (induction t)
  case Null
  then show ?case by simp
next
  case (Node d l r)
  then show ?case by (simp only: fst_insert_bst_Node) fastforce
qed

lemma size_insert_bst_absent:
  "x \<notin> set (inorder t) \<Longrightarrow> size_tree (fst (insert_bst vb t x)) = size_tree t + 1"
proof (induction t)
  case Null
  then show ?case by simp
next
  case (Node d l r)
  then show ?case by (simp only: fst_insert_bst_Node) auto
qed

lemma insert_then_remove:
  "x \<notin> set (inorder t) \<Longrightarrow> remove_bst (fst (insert_bst vb t x)) x = Some t"
proof (induction t)
  case Null
  then show ?case by simp
next
  case (Node d l r)
  then show ?case by (simp only: fst_insert_bst_Node) auto
qed

section \<open>The successor search and removal\<close>

lemma findMin_Node: "t \<noteq> Null \<Longrightarrow> \<exists>m mr. findMin t = Node m Null mr"
  by (induction t rule: findMin.induct) auto

lemma findMin_in: "findMin t = Node m ml mr \<Longrightarrow> m \<in> set (inorder t)"
  by (induction t rule: findMin.induct) auto

lemma findMin_first: "findMin t = Node m ml mr \<Longrightarrow> \<exists>ys. inorder t = m # ys"
proof (induction t rule: findMin.induct)
  case 1
  then show ?case by simp
next
  case (2 d r)
  then show ?case by simp
next
  case (3 d d' l' r' r)
  then obtain ys where "inorder (Node d' l' r') = m # ys" by auto
  then have "inorder (Node d (Node d' l' r') r) = m # (ys @ d # inorder r)" by simp
  then show ?case by blast
qed

lemma findMin_hd: "findMin t = Node m ml mr \<Longrightarrow> hd (inorder t) = m"
  using findMin_first by fastforce

lemma findMin_least:
  "bst_ordered t \<Longrightarrow> findMin t = Node m ml mr \<Longrightarrow> x \<in> set (inorder t) \<Longrightarrow> m \<le> x"
proof (induction t rule: findMin.induct)
  case 1
  then show ?case by simp
next
  case (2 d r)
  then show ?case by auto
next
  case (3 d d' l' r' r)
  let ?l = "Node d' l' r'"
  from 3 have fm: "findMin ?l = Node m ml mr" by simp
  then have m_in: "m \<in> set (inorder ?l)" by (rule findMin_in)
  from 3 have ord: "bst_ordered ?l" by simp
  from 3 have lt: "\<forall>y \<in> set (inorder ?l). y < d" and gt: "\<forall>y \<in> set (inorder r). d < y"
    by simp_all
  from m_in lt have md: "m < d" by blast
  from "3.prems"(3) have "x \<in> set (inorder ?l) \<or> x = d \<or> x \<in> set (inorder r)" by auto
  then show ?case
  proof (elim disjE)
    assume "x \<in> set (inorder ?l)"
    with "3.IH" ord fm show ?thesis by blast
  next
    assume "x = d"
    with md show ?thesis by simp
  next
    assume "x \<in> set (inorder r)"
    with gt have "d < x" by blast
    with md show ?thesis by simp
  qed
qed

lemma remove_bst_total: "\<exists>t'. remove_bst t x = Some t'"
proof (induction t arbitrary: x)
  case Null
  then show ?case by simp
next
  case (Node d l r)
  show ?case
  proof (cases "l \<noteq> Null \<and> r \<noteq> Null \<and> \<not> x < d \<and> \<not> d < x")
    case True
    then obtain m mr where m: "findMin r = Node m Null mr" using findMin_Node by blast
    from Node.IH(2)[of m] obtain r' where "remove_bst r m = Some r'" by blast
    with True m show ?thesis by simp
  next
    case False
    from Node.IH(1)[of x] obtain l' where l': "remove_bst l x = Some l'" by blast
    from Node.IH(2)[of x] obtain r' where r': "remove_bst r x = Some r'" by blast
    from False l' r' show ?thesis by auto
  qed
qed

lemma remove_bst_Node_lt:
  "x < d \<Longrightarrow> remove_bst (Node d l r) x = map_option (\<lambda>l'. Node d l' r) (remove_bst l x)"
  by (simp split: option.split)

lemma remove_bst_Node_gt:
  "d < x \<Longrightarrow> remove_bst (Node d l r) x = map_option (\<lambda>r'. Node d l r') (remove_bst r x)"
  by (simp split: option.split)

lemma remove_bst_Node_eq_two:
  "l \<noteq> Null \<Longrightarrow> r \<noteq> Null \<Longrightarrow> findMin r = Node m ml mr \<Longrightarrow>
     remove_bst (Node d l r) d = map_option (\<lambda>r'. Node m l r') (remove_bst r m)"
  by (simp split: option.split)

lemma remove_bst_set_bst:
  "bst_ordered t \<Longrightarrow> remove_bst t x = Some t' \<Longrightarrow>
     set (inorder t') = set (inorder t) - {x} \<and> bst_ordered t'"
proof (induction t arbitrary: x t')
  case Null
  then show ?case by simp
next
  case (Node d l r)
  from Node.prems(1) have lt: "\<forall>y \<in> set (inorder l). y < d"
    and gt: "\<forall>y \<in> set (inorder r). d < y"
    and ol: "bst_ordered l" and or: "bst_ordered r" by simp_all
  consider (less) "x < d" | (greater) "d < x"
    | (noleft) "x = d" "l = Null"
    | (noright) "x = d" "l \<noteq> Null" "r = Null"
    | (two) "x = d" "l \<noteq> Null" "r \<noteq> Null"
    by fastforce
  then show ?case
  proof cases
    case less
    with Node.prems(2) obtain l' where l': "remove_bst l x = Some l'" and t': "t' = Node d l' r"
      by (auto simp del: remove_bst.simps simp add: remove_bst_Node_lt)
    from Node.IH(1)[OF ol l'] have sl: "set (inorder l') = set (inorder l) - {x}"
      and ol': "bst_ordered l'" by simp_all
    from gt less have "x \<notin> set (inorder r)" by fastforce
    with sl less have "set (inorder t') = set (inorder (Node d l r)) - {x}"
      unfolding t' by auto
    moreover from sl ol' lt gt or have "bst_ordered t'" unfolding t' by simp
    ultimately show ?thesis by simp
  next
    case greater
    with Node.prems(2) obtain r' where r': "remove_bst r x = Some r'" and t': "t' = Node d l r'"
      by (auto simp del: remove_bst.simps simp add: remove_bst_Node_gt)
    from Node.IH(2)[OF or r'] have sr: "set (inorder r') = set (inorder r) - {x}"
      and or': "bst_ordered r'" by simp_all
    from lt greater have "x \<notin> set (inorder l)" by fastforce
    with sr greater have "set (inorder t') = set (inorder (Node d l r)) - {x}"
      unfolding t' by auto
    moreover from sr or' lt gt ol have "bst_ordered t'" unfolding t' by simp
    ultimately show ?thesis by simp
  next
    case noleft
    with Node.prems(2) have t': "t' = r" by simp
    from gt have "d \<notin> set (inorder r)" by fastforce
    with noleft or show ?thesis unfolding t' by simp
  next
    case noright
    with Node.prems(2) have t': "t' = l" by simp
    from lt have "d \<notin> set (inorder l)" by fastforce
    with noright ol show ?thesis unfolding t' by simp
  next
    case two
    from two(3) obtain m mr where fm: "findMin r = Node m Null mr"
      using findMin_Node by blast
    from Node.prems(2) two fm obtain r' where r': "remove_bst r m = Some r'"
      and t': "t' = Node m l r'"
      by (auto simp del: remove_bst.simps simp add: remove_bst_Node_eq_two)
    from Node.IH(2)[OF or r'] have sr: "set (inorder r') = set (inorder r) - {m}"
      and or': "bst_ordered r'" by simp_all
    from fm have m_in: "m \<in> set (inorder r)" by (rule findMin_in)
    with gt have dm: "d < m" by blast
    have least: "\<forall>y \<in> set (inorder r). m \<le> y"
      using findMin_least[OF or fm] by blast
    have l_lt: "\<forall>y \<in> set (inorder l). y < m" using lt dm by fastforce
    have r_gt: "\<forall>y \<in> set (inorder r'). m < y" using sr least by fastforce
    have d_l: "d \<notin> set (inorder l)" using lt by fastforce
    have d_r: "d \<notin> set (inorder r)" using gt by fastforce
    have "set (inorder t') = set (inorder (Node d l r)) - {x}"
      unfolding t' using sr m_in d_l d_r two(1) by auto
    moreover have "bst_ordered t'" unfolding t' using l_lt r_gt ol or' by simp
    ultimately show ?thesis by simp
  qed
qed

lemma bst_ordered_sorted: "bst_ordered t = sorted_wrt (<) (inorder t)"
proof (induction t)
  case Null
  show ?case by simp
next
  case (Node d l r)
  have "(\<forall>x \<in> set (inorder l). x < d) \<and> (\<forall>y \<in> set (inorder r). d < y)
        \<longleftrightarrow> (\<forall>x \<in> set (inorder l). \<forall>y \<in> set (d # inorder r). x < y)
             \<and> (\<forall>y \<in> set (inorder r). d < y)"
    by fastforce
  with Node show ?case by (auto simp: sorted_wrt_append)
qed

lemma remove_bst_absent: "x \<notin> set (inorder t) \<Longrightarrow> remove_bst t x = Some t"
  by (induction t) auto

lemma remove_two_children_local:
  assumes ord: "bst_ordered (Node d l r)" and l: "l \<noteq> Null" and r: "r \<noteq> Null"
  shows "\<exists>m mr r'. findMin r = Node m Null mr \<and> hd (inorder r) = m
            \<and> remove_bst r m = Some r'
            \<and> remove_bst (Node d l r) d = Some (Node m l r')
            \<and> sorted_wrt (<) (inorder (Node m l r'))
            \<and> set (inorder (Node m l r')) = set (inorder (Node d l r)) - {d}"
proof -
  from r obtain m mr where fm: "findMin r = Node m Null mr" using findMin_Node by blast
  then have hd: "hd (inorder r) = m" by (rule findMin_hd)
  obtain r' where r': "remove_bst r m = Some r'" using remove_bst_total by blast
  have rem: "remove_bst (Node d l r) d = Some (Node m l r')"
    using remove_bst_Node_eq_two[OF l r fm, of d] r' by simp
  from remove_bst_set_bst[OF ord rem]
  have "set (inorder (Node m l r')) = set (inorder (Node d l r)) - {d}"
    and "bst_ordered (Node m l r')" by simp_all
  then have "sorted_wrt (<) (inorder (Node m l r'))"
    and "set (inorder (Node m l r')) = set (inorder (Node d l r)) - {d}"
    using bst_ordered_sorted by blast+
  with fm hd r' rem show ?thesis by blast
qed

section \<open>The maximum\<close>

lemma findMax_last: "t \<noteq> Null \<Longrightarrow> findMax t = last (inorder t)"
  by (induction t rule: findMax.induct) auto

lemma findMax_in: "t \<noteq> Null \<Longrightarrow> findMax t \<in> set (inorder t)"
  by (induction t rule: findMax.induct) auto

lemma findMax_greatest:
  "bst_ordered t \<Longrightarrow> x \<in> set (inorder t) \<Longrightarrow> x \<le> findMax t"
proof (induction t rule: findMax.induct)
  case 1
  then show ?case by simp
next
  case (2 d l)
  then show ?case by auto
next
  case (3 d l d' l' r')
  let ?r = "Node d' l' r'"
  have m_in: "findMax ?r \<in> set (inorder ?r)" by (rule findMax_in) simp
  from 3 have ord: "bst_ordered ?r" by simp
  from 3 have lt: "\<forall>y \<in> set (inorder l). y < d" and gt: "\<forall>y \<in> set (inorder ?r). d < y"
    by simp_all
  from m_in gt have dm: "d < findMax ?r" by blast
  have eq: "findMax (Node d l ?r) = findMax ?r" by simp
  from "3.prems"(2) have "x \<in> set (inorder l) \<or> x = d \<or> x \<in> set (inorder ?r)" by auto
  then show ?case
  proof (elim disjE)
    assume "x \<in> set (inorder l)"
    with lt have "x < d" by blast
    with dm eq show ?thesis by simp
  next
    assume "x = d"
    with dm eq show ?thesis by simp
  next
    assume "x \<in> set (inorder ?r)"
    with "3.IH" ord eq show ?thesis by simp
  qed
qed

lemma findMax_Max:
  assumes "bst_ordered t" "t \<noteq> Null"
  shows "findMax t = Max (set (inorder t))"
proof -
  have "Max (set (inorder t)) = findMax t"
  proof (rule Max_eqI)
    show "finite (set (inorder t))" by simp
    show "\<And>y. y \<in> set (inorder t) \<Longrightarrow> y \<le> findMax t"
      using assms(1) by (rule findMax_greatest)
    show "findMax t \<in> set (inorder t)" using assms(2) by (rule findMax_in)
  qed
  then show ?thesis by simp
qed

section \<open>The benchmark and the tracing flag\<close>

lemma add_verbose: "verbose (add x s) = verbose s"
  by (simp add: add_def case_prod_beta)

lemma add_loop_verbose: "verbose (add_loop rnd i n s) = verbose s"
proof (induction rnd i n s rule: add_loop.induct)
  case (1 rnd i numElements s)
  show ?case
  proof (cases "i < numElements")
    case True
    with 1 show ?thesis by (subst add_loop.simps) (simp add: add_verbose)
  next
    case False
    then show ?thesis by (subst add_loop.simps) simp
  qed
qed

lemma testPerformanceHelper_verbose: "verbose (testPerformanceHelper rnd n s) = verbose s"
  by (simp add: testPerformanceHelper_def Let_def add_loop_verbose)

lemma testPerformance_verbose: "verbose (testPerformance rnd s) = True"
  by (simp add: testPerformance_def Let_def)

section \<open>Sequences of operations\<close>

lemma root_add: "root (add x s) = fst (insert_bst (verbose s) (root s) x)"
  by (simp add: add_def case_prod_beta)

lemma remove_value_Some:
  "remove_bst (root s) x = Some t \<Longrightarrow> remove_value x s = Some (s\<lparr>root := t\<rparr>)"
  by (simp add: remove_value_def)

lemma step_bst_ordered:
  assumes "bst_ordered (root s)"
  shows "\<exists>s'. step o1 s = Some s' \<and> bst_ordered (root s')"
proof (cases o1)
  case (Add x)
  with assms show ?thesis by (simp add: root_add bst_insert_bst)
next
  case (Remove x)
  obtain t where t: "remove_bst (root s) x = Some t" using remove_bst_total by blast
  with assms have "bst_ordered t" using remove_bst_set_bst by blast
  with Remove t show ?thesis by (simp add: remove_value_Some)
qed

lemma run_bst_ordered:
  "bst_ordered (root s) \<Longrightarrow> \<exists>s'. run ops s = Some s' \<and> bst_ordered (root s')"
proof (induction ops arbitrary: s)
  case Nil
  then show ?case by simp
next
  case (Cons o1 ops)
  from step_bst_ordered[OF Cons.prems] obtain s1
    where s1: "step o1 s = Some s1" and b1: "bst_ordered (root s1)" by blast
  from Cons.IH[OF b1] s1 show ?case by simp
qed

lemma step_root_indep:
  assumes "root s1 = root s2"
  shows "\<exists>t1 t2. step o1 s1 = Some t1 \<and> step o1 s2 = Some t2 \<and> root t1 = root t2"
proof (cases o1)
  case (Add x)
  have "fst (insert_bst (verbose s1) (root s2) x) = fst (insert_bst (verbose s2) (root s2) x)"
    by (rule insert_bst_verbose)
  with Add assms show ?thesis by (simp add: root_add)
next
  case (Remove x)
  obtain t where t: "remove_bst (root s1) x = Some t" using remove_bst_total by blast
  with Remove assms show ?thesis by (simp add: remove_value_def)
qed

lemma run_root_indep:
  "root s1 = root s2 \<Longrightarrow>
     \<exists>t1 t2. run ops s1 = Some t1 \<and> run ops s2 = Some t2 \<and> root t1 = root t2"
proof (induction ops arbitrary: s1 s2)
  case Nil
  then show ?case by simp
next
  case (Cons o1 ops)
  from step_root_indep[OF Cons.prems, of o1] obtain u1 u2
    where u: "step o1 s1 = Some u1" "step o1 s2 = Some u2" "root u1 = root u2" by blast
  from Cons.IH[OF u(3)] u(1,2) show ?case by simp
qed

section \<open>The properties of the specification\<close>

text \<open>
  C1. Start from an empty tree (whatever the tracing flag) and apply any sequence of
  \<^verbatim>\<open>add\<close> and \<^verbatim>\<open>remove\<close> calls. The sequence runs to its end, and in the tree it leaves
  every node has only strictly smaller values in its left subtree and only strictly
  greater values in its right subtree; equivalently, the in-order traversal is strictly
  increasing.
\<close>

theorem reachable_bst_ordered:
  "root s0 = Null \<Longrightarrow>
     \<exists>s. run ops s0 = Some s \<and> bst_ordered (root s) \<and> sorted_wrt (<) (inorder (root s))"
proof -
  assume "root s0 = Null"
  then have "bst_ordered (root s0)" by simp
  then obtain s where "run ops s0 = Some s" and "bst_ordered (root s)"
    using run_bst_ordered by blast
  then show ?thesis using bst_ordered_sorted by blast
qed

theorem reachable_bst_ordered_witness:
  "root BST_init = Null \<and>
   (\<exists>s. run [Add 50, Add 30, Add 70, Add 60, Remove 50, Add 30, Remove 7] BST_init = Some s
        \<and> bst_ordered (root s) \<and> sorted_wrt (<) (inorder (root s))) \<and>
   map_option root (run [Add 50, Add 30, Add 70, Add 60, Remove 50, Add 30, Remove 7] BST_init)
     = Some (Node 60 (Node 30 Null Null) (Node 70 Null Null))"
  using reachable_bst_ordered
    [of BST_init "[Add 50, Add 30, Add 70, Add 60, Remove 50, Add 30, Remove 7]"]
  by (simp add: BST_init_def add_def remove_value_def)

text \<open>
  C2. \<^verbatim>\<open>add(v)\<close> creates a node for \<open>v\<close> exactly when the tree holds no node with that
  value: on an ordered tree, if \<open>v\<close> is present the tree is returned as it was, and if \<open>v\<close>
  is absent the tree gains one node and \<open>v\<close> joins its values. Adding \<open>v\<close> a second time
  changes nothing, on any tree: the tree, and so its in-order traversal, is the one obtained
  after the first call.
\<close>

theorem add_iff_absent:
  "(bst_ordered (root s) \<longrightarrow>
      (x \<in> set (inorder (root s)) \<longrightarrow> root (add x s) = root s) \<and>
      (x \<notin> set (inorder (root s)) \<longrightarrow>
         size_tree (root (add x s)) = size_tree (root s) + 1 \<and>
         set (inorder (root (add x s))) = {x} \<union> set (inorder (root s)))) \<and>
   root (add x (add x s)) = root (add x s) \<and>
   inorder (root (add x (add x s))) = inorder (root (add x s))"
proof -
  have "verbose (add x s) = verbose s" by (rule add_verbose)
  then have "root (add x (add x s)) = root (add x s)"
    by (simp add: root_add insert_bst_twice)
  then show ?thesis
    by (simp add: root_add insert_bst_present size_insert_bst_absent set_insert_bst)
qed

theorem add_iff_absent_witness:
  "bst_ordered (Node 10 Null Null) \<and> (10::int) \<in> set (inorder (Node 10 Null Null)) \<and>
   (20::int) \<notin> set (inorder (Node 10 Null Null)) \<and>
   root (add 10 \<lparr>verbose = True, root = Node 10 Null Null, cout = [], rand_calls = 0\<rparr>)
     = Node 10 Null Null \<and>
   size_tree (root (add 20 \<lparr>verbose = True, root = Node 10 Null Null, cout = [], rand_calls = 0\<rparr>))
     = size_tree (Node 10 Null Null) + 1 \<and>
   inorder (root (add 10 (add 10 BST_init))) = [10] \<and>
   inorder (root (add 10 (add 10 BST_init))) = inorder (root (add 10 BST_init))"
  using add_iff_absent [of "\<lparr>verbose = True, root = Node 10 Null Null, cout = [], rand_calls = 0\<rparr>" 10]
    add_iff_absent [of "\<lparr>verbose = True, root = Node 10 Null Null, cout = [], rand_calls = 0\<rparr>" 20]
    add_iff_absent [of BST_init 10]
  by (simp add: BST_init_def add_def)

text \<open>
  C3. \<^verbatim>\<open>findMaximum()\<close> returns \<open>-1\<close> on the empty tree. On a non-empty tree it returns the
  value of the rightmost node (the last value of the in-order traversal), and when the tree
  is ordered this is the largest value present.
\<close>

theorem findMaximum_largest:
  "(root s = Null \<longrightarrow> findMaximum s = - 1) \<and>
   (root s \<noteq> Null \<longrightarrow> findMaximum s = last (inorder (root s))) \<and>
   (bst_ordered (root s) \<longrightarrow> root s \<noteq> Null \<longrightarrow>
      findMaximum s = Max (set (inorder (root s))))"
proof (intro conjI impI)
  assume "root s = Null"
  then show "findMaximum s = - 1" by (simp add: findMaximum_def)
next
  assume "root s \<noteq> Null"
  then show "findMaximum s = last (inorder (root s))"
    by (simp add: findMaximum_def findMax_last)
next
  assume "bst_ordered (root s)" and "root s \<noteq> Null"
  then show "findMaximum s = Max (set (inorder (root s)))"
    unfolding findMaximum_def by (rule findMax_Max)
qed

theorem findMaximum_largest_witness:
  "root BST_init = Null \<and> findMaximum BST_init = - 1 \<and>
   root (add 30 (add 80 (add 50 BST_init))) \<noteq> Null \<and>
   bst_ordered (root (add 30 (add 80 (add 50 BST_init)))) \<and>
   findMaximum (add 30 (add 80 (add 50 BST_init))) = 80 \<and>
   last (inorder (root (add 30 (add 80 (add 50 BST_init))))) = 80 \<and>
   Max (set (inorder (root (add 30 (add 80 (add 50 BST_init)))))) = 80"
  using findMaximum_largest [of BST_init]
    findMaximum_largest [of "add 30 (add 80 (add 50 BST_init))"]
  by (simp add: BST_init_def add_def findMaximum_def)

text \<open>
  C4. \<^verbatim>\<open>remove(v)\<close> on a tree that holds no node with value \<open>v\<close> returns normally and
  leaves the whole object as it was.
\<close>

theorem remove_absent_unchanged:
  "x \<notin> set (inorder (root s)) \<Longrightarrow> remove_value x s = Some s"
  by (simp add: remove_value_def remove_bst_absent)

theorem remove_absent_unchanged_witness:
  "(7::int) \<notin> set (inorder (root (add 30 (add 80 (add 50 BST_init))))) \<and>
   remove_value 7 (add 30 (add 80 (add 50 BST_init))) = Some (add 30 (add 80 (add 50 BST_init)))"
  using remove_absent_unchanged [of 7 "add 30 (add 80 (add 50 BST_init))"]
  by (simp add: BST_init_def add_def)

text \<open>
  C5. Removing the value of a node with two children, in an ordered tree: \<^verbatim>\<open>findMin\<close> of the
  right subtree is its leftmost node, whose value \<open>m\<close> is the first of that subtree's
  in-order traversal; the node takes the value \<open>m\<close>, the left subtree is kept, and the right
  subtree is replaced by the result of removing \<open>m\<close> from it. The in-order traversal of the
  result is strictly increasing and has lost exactly the removed value. The same holds for
  the removal of any value from any ordered tree. After adding 50, 30, 70, 20, 40, 60, 80
  to an empty tree, removing 30 leaves the traversal 20, 40, 50, 60, 70, 80.
\<close>

theorem remove_two_children:
  "(bst_ordered (Node d l r) \<and> l \<noteq> Null \<and> r \<noteq> Null \<longrightarrow>
      (\<exists>m mr r'. findMin r = Node m Null mr \<and> hd (inorder r) = m
          \<and> remove_bst r m = Some r'
          \<and> remove_bst (Node d l r) d = Some (Node m l r')
          \<and> sorted_wrt (<) (inorder (Node m l r'))
          \<and> d \<notin> set (inorder (Node m l r'))
          \<and> set (inorder (Node m l r')) = set (inorder (Node d l r)) - {d})) \<and>
   (bst_ordered t \<longrightarrow>
      (\<exists>t'. remove_bst t v = Some t' \<and> sorted_wrt (<) (inorder t')
          \<and> v \<notin> set (inorder t') \<and> set (inorder t') = set (inorder t) - {v})) \<and>
   map_option (inorder \<circ> root)
     (run [Add 50, Add 30, Add 70, Add 20, Add 40, Add 60, Add 80, Remove 30] BST_init)
     = Some [20, 40, 50, 60, 70, 80]"
proof (intro conjI impI)
  assume "bst_ordered (Node d l r) \<and> l \<noteq> Null \<and> r \<noteq> Null"
  then obtain m mr r' where *: "findMin r = Node m Null mr" "hd (inorder r) = m"
      "remove_bst r m = Some r'" "remove_bst (Node d l r) d = Some (Node m l r')"
      "sorted_wrt (<) (inorder (Node m l r'))"
      "set (inorder (Node m l r')) = set (inorder (Node d l r)) - {d}"
    using remove_two_children_local by blast
  from *(6) have "d \<notin> set (inorder (Node m l r'))" by blast
  with * show "\<exists>m mr r'. findMin r = Node m Null mr \<and> hd (inorder r) = m
          \<and> remove_bst r m = Some r'
          \<and> remove_bst (Node d l r) d = Some (Node m l r')
          \<and> sorted_wrt (<) (inorder (Node m l r'))
          \<and> d \<notin> set (inorder (Node m l r'))
          \<and> set (inorder (Node m l r')) = set (inorder (Node d l r)) - {d}"
    by blast
next
  assume ord: "bst_ordered t"
  obtain t' where t': "remove_bst t v = Some t'" using remove_bst_total by blast
  from remove_bst_set_bst[OF ord t']
  have s: "set (inorder t') = set (inorder t) - {v}" and "bst_ordered t'" by simp_all
  then have "sorted_wrt (<) (inorder t')" using bst_ordered_sorted by blast
  moreover from s have "v \<notin> set (inorder t')" by blast
  ultimately show "\<exists>t'. remove_bst t v = Some t' \<and> sorted_wrt (<) (inorder t')
          \<and> v \<notin> set (inorder t') \<and> set (inorder t') = set (inorder t) - {v}"
    using t' s by blast
next
  show "map_option (inorder \<circ> root)
     (run [Add 50, Add 30, Add 70, Add 20, Add 40, Add 60, Add 80, Remove 30] BST_init)
     = Some [20, 40, 50, 60, 70, 80]"
    by (simp add: BST_init_def add_def remove_value_def)
qed

theorem remove_two_children_witness:
  "bst_ordered (Node 30 (Node 20 Null Null) (Node 40 Null Null)) \<and>
   Node 20 Null Null \<noteq> Null \<and> Node 40 Null Null \<noteq> Null \<and>
   findMin (Node 40 Null Null) = Node 40 Null Null \<and>
   remove_bst (Node 40 Null Null) 40 = Some Null \<and>
   remove_bst (Node 30 (Node 20 Null Null) (Node 40 Null Null)) 30
     = Some (Node 40 (Node 20 Null Null) Null) \<and>
   sorted_wrt (<) (inorder (Node 40 (Node 20 Null Null) Null)) \<and>
   (30::int) \<notin> set (inorder (Node 40 (Node 20 Null Null) Null))"
  using remove_two_children
    [of 30 "Node 20 Null Null" "Node 40 Null Null"
        "Node 30 (Node 20 Null Null) (Node 40 Null Null)" 30]
  by simp

text \<open>
  C6. If \<open>v\<close> is not in the tree, \<^verbatim>\<open>add(v)\<close> followed at once by \<^verbatim>\<open>remove(v)\<close> returns
  normally and gives back the tree there was before, hence the same in-order traversal.
\<close>

theorem add_then_remove:
  "x \<notin> set (inorder (root s)) \<Longrightarrow>
     \<exists>s'. remove_value x (add x s) = Some s' \<and> root s' = root s
          \<and> inorder (root s') = inorder (root s)"
  by (simp add: remove_value_def root_add insert_then_remove)

theorem add_then_remove_witness:
  "(40::int) \<notin> set (inorder (root (add 30 (add 80 (add 50 BST_init))))) \<and>
   map_option root (remove_value 40 (add 40 (add 30 (add 80 (add 50 BST_init)))))
     = Some (root (add 30 (add 80 (add 50 BST_init)))) \<and>
   map_option (inorder \<circ> root) (remove_value 40 (add 40 (add 30 (add 80 (add 50 BST_init)))))
     = Some [30, 50, 80]"
  using add_then_remove [of 40 "add 30 (add 80 (add 50 BST_init))"]
  by (simp add: BST_init_def add_def remove_value_def)

text \<open>
  C7. When the node holding the value to remove has no left child, \<^verbatim>\<open>remove\<close> returns its
  right child in its place (a leaf is replaced by the empty tree); when it has a left child
  but no right child, its left child is returned. After adding 50, 30, 70, 20, 40, 60, 80 to
  an empty tree, removing the leaf 80 leaves the traversal 20, 30, 40, 50, 60, 70 and the
  maximum 70.
\<close>

theorem remove_at_most_one_child:
  "remove_bst (Node d Null r) d = Some r \<and>
   (l \<noteq> Null \<longrightarrow> remove_bst (Node d l Null) d = Some l) \<and>
   map_option (inorder \<circ> root)
     (run [Add 50, Add 30, Add 70, Add 20, Add 40, Add 60, Add 80, Remove 80] BST_init)
     = Some [20, 30, 40, 50, 60, 70] \<and>
   map_option findMaximum
     (run [Add 50, Add 30, Add 70, Add 20, Add 40, Add 60, Add 80, Remove 80] BST_init)
     = Some 70"
proof (intro conjI impI)
  show "remove_bst (Node d Null r) d = Some r" by simp
next
  assume "l \<noteq> Null"
  then show "remove_bst (Node d l Null) d = Some l" by simp
next
  show "map_option (inorder \<circ> root)
     (run [Add 50, Add 30, Add 70, Add 20, Add 40, Add 60, Add 80, Remove 80] BST_init)
     = Some [20, 30, 40, 50, 60, 70]"
    by (simp add: BST_init_def add_def remove_value_def)
next
  show "map_option findMaximum
     (run [Add 50, Add 30, Add 70, Add 20, Add 40, Add 60, Add 80, Remove 80] BST_init)
     = Some 70"
    by (simp add: BST_init_def add_def remove_value_def findMaximum_def)
qed

theorem remove_at_most_one_child_witness:
  "remove_bst (Node 70 Null (Node 80 Null Null)) 70 = Some (Node 80 Null Null) \<and>
   remove_bst (Node 80 Null Null) 80 = Some Null \<and>
   Node 60 Null Null \<noteq> Null \<and>
   remove_bst (Node 70 (Node 60 Null Null) Null) 70 = Some (Node 60 Null Null)"
  using remove_at_most_one_child [of 70 "Node 80 Null Null" "Node 60 Null Null"]
    remove_at_most_one_child [of 80 Null Null]
  by simp

text \<open>
  C8. When \<^verbatim>\<open>testPerformance()\<close> returns, the tracing flag is true, whatever it was
  before the call; it therefore equals its value before the call exactly when that value
  was true. With the flag cleared beforehand, the call leaves it different from before.
\<close>

theorem testPerformance_sets_verbose:
  "verbose (testPerformance rnd s) = True \<and>
   ((verbose (testPerformance rnd s) = verbose s) = verbose s)"
  by (simp add: testPerformance_verbose)

theorem testPerformance_restore_counterexample:
  "verbose (testPerformance rand_zero quiet_empty) \<noteq> verbose quiet_empty"
  by (simp add: testPerformance_verbose quiet_empty_def)

text \<open>
  C9. The tracing flag has no effect on the tree: from the same tree, any sequence of
  \<^verbatim>\<open>add\<close> and \<^verbatim>\<open>remove\<close> calls runs to its end with the flag set and with the flag
  cleared, and both runs leave the same tree.
\<close>

theorem verbose_no_effect_on_tree:
  "\<exists>s1 s2. run ops (s\<lparr>verbose := True\<rparr>) = Some s1 \<and> run ops (s\<lparr>verbose := False\<rparr>) = Some s2
      \<and> root s1 = root s2"
proof -
  have "root (s\<lparr>verbose := True\<rparr>) = root (s\<lparr>verbose := False\<rparr>)" by simp
  then show ?thesis by (rule run_root_indep)
qed

text \<open>
  C10. \<^verbatim>\<open>findMin\<close> of a non-empty subtree is a node, never null. So in the two-child
  branch of \<^verbatim>\<open>remove\<close> the read of \<^verbatim>\<open>temp->data\<close> goes through a node, and the branch
  returns a tree; more generally \<^verbatim>\<open>remove\<close> never dereferences a null pointer, on any tree
  and any value.
\<close>

theorem two_child_branch_no_null:
  "(r \<noteq> Null \<longrightarrow> (\<exists>m mr. findMin r = Node m Null mr)) \<and>
   (l \<noteq> Null \<and> r \<noteq> Null \<longrightarrow>
      (\<exists>m mr r'. findMin r = Node m Null mr \<and> remove_bst r m = Some r'
          \<and> remove_bst (Node d l r) d = Some (Node m l r'))) \<and>
   (\<exists>t'. remove_bst t x = Some t')"
proof (intro conjI impI)
  assume "r \<noteq> Null"
  then show "\<exists>m mr. findMin r = Node m Null mr" by (rule findMin_Node)
next
  assume lr: "l \<noteq> Null \<and> r \<noteq> Null"
  then obtain m mr where fm: "findMin r = Node m Null mr" using findMin_Node by blast
  obtain r' where r': "remove_bst r m = Some r'" using remove_bst_total by blast
  from lr fm r' have "remove_bst (Node d l r) d = Some (Node m l r')"
    by (simp add: remove_bst_Node_eq_two)
  with fm r' show "\<exists>m mr r'. findMin r = Node m Null mr \<and> remove_bst r m = Some r'
          \<and> remove_bst (Node d l r) d = Some (Node m l r')" by blast
next
  show "\<exists>t'. remove_bst t x = Some t'" by (rule remove_bst_total)
qed

theorem two_child_branch_no_null_witness:
  "Node 70 (Node 60 Null Null) (Node 80 Null Null) \<noteq> Null \<and> Node 30 Null Null \<noteq> Null \<and>
   findMin (Node 70 (Node 60 Null Null) (Node 80 Null Null)) = Node 60 Null Null \<and>
   remove_bst (Node 50 (Node 30 Null Null) (Node 70 (Node 60 Null Null) (Node 80 Null Null))) 50
     = Some (Node 60 (Node 30 Null Null) (Node 70 Null (Node 80 Null Null)))"
  using two_child_branch_no_null
    [of "Node 70 (Node 60 Null Null) (Node 80 Null Null)" "Node 30 Null Null" 50 Null 0]
  by simp

end
